theory Spec2Isabelle
  imports Main "HOL-Library.Sublist"
begin

section \<open>The document tree behind a block item container\<close>

text \<open>
  \<^verbatim>\<open>docx/blkcntnr.py\<close> is a thin proxy layer: a \<^verbatim>\<open>BlockItemContainer\<close> holds a reference
  \<^verbatim>\<open>self._element\<close> to one element of an XML tree and every method reads or mutates that
  tree through the element. The tree is modelled as a value, an element reference as the
  path of child indices from the root to the element, and the mutable world as a record
  holding the tree and the state of Python's random generator. Several containers (the
  body, a cell nested in a table of the body) are several paths into the same tree, so a
  mutation through one is seen through the others.

  The payload of a paragraph element is what the paragraph entity of the specification
  carries: an optional style reference, its runs of text, an optional numbering
  identifier and an optional indentation level.
\<close>

record CT_P =
  pStyle :: "string option"
  r_lst :: "string list"
  numId_val :: "int option"
  ilvl_val :: "nat option"

datatype tag = W_body | W_p CT_P | W_tbl "int list" | W_tr | W_tc

datatype elem = Elem tag "elem list"

type_synonym ref = "nat list"

record world =
  root :: elem
  rand_src :: "nat \<Rightarrow> nat"
  rand_pos :: nat

fun tag_of :: "elem \<Rightarrow> tag" where
  "tag_of (Elem t ks) = t"

fun children :: "elem \<Rightarrow> elem list" where
  "children (Elem t ks) = ks"

fun get_elem :: "elem \<Rightarrow> ref \<Rightarrow> elem option" where
  "get_elem e [] = Some e"
| "get_elem (Elem t ks) (i # is) = (if i < length ks then get_elem (ks ! i) is else None)"

fun upd_elem :: "(elem \<Rightarrow> elem) \<Rightarrow> ref \<Rightarrow> elem \<Rightarrow> elem" where
  "upd_elem f [] e = f e"
| "upd_elem f (i # is) (Elem t ks) =
     (if i < length ks then Elem t (ks[i := upd_elem f is (ks ! i)]) else Elem t ks)"

definition kids_at :: "elem \<Rightarrow> ref \<Rightarrow> elem list" where
  "kids_at r el = (case get_elem r el of None \<Rightarrow> [] | Some e \<Rightarrow> children e)"

fun append_child :: "elem \<Rightarrow> elem \<Rightarrow> elem" where
  "append_child c (Elem t ks) = Elem t (ks @ [c])"

fun map_p :: "(CT_P \<Rightarrow> CT_P) \<Rightarrow> elem \<Rightarrow> elem" where
  "map_p f (Elem (W_p d) ks) = Elem (W_p (f d)) ks"
| "map_p f e = e"

fun is_p :: "elem \<Rightarrow> bool" where
  "is_p (Elem (W_p d) ks) = True"
| "is_p e = False"

fun is_tbl :: "elem \<Rightarrow> bool" where
  "is_tbl (Elem (W_tbl g) ks) = True"
| "is_tbl e = False"

text \<open>The element itself followed by all its descendants, in document order.\<close>

fun descendants :: "elem \<Rightarrow> elem list" where
  "descendants (Elem t ks) = Elem t ks # concat (map descendants ks)"

section \<open>The proxy objects\<close>

text \<open>
  \<^verbatim>\<open>BlockItemContainer(element, parent)\<close> keeps the element it wraps; the parent it hands to
  \<^verbatim>\<open>Parented\<close> is read by none of its methods and is left out. \<^verbatim>\<open>Paragraph(p, self)\<close> and
  \<^verbatim>\<open>Table(tbl, self)\<close> keep the element they stand for and the container that built them.
\<close>

record BlockItemContainer =
  element :: ref

record Paragraph =
  para_p :: ref
  para_parent :: BlockItemContainer

record Table =
  tbl_ref :: ref
  tbl_parent :: BlockItemContainer


section \<open>The primitives of the tree layer\<close>

text \<open>
  Modelled from the spec: \<^verbatim>\<open>BaseOxmlElement.xpath\<close> (docx/oxml, evaluated by lxml) is not
  under src/. The source calls it with the pattern \<^verbatim>\<open>//w:numId[@w:val='%s'] % numId\<close>; the
  specification calls it "a document-wide existence check (a query across the full
  subtree for any paragraph's numbering-identifier attribute equal to the candidate)".
  A pattern that starts with \<^verbatim>\<open>//\<close> is absolute: it selects from the root of the tree that
  holds the context element, whatever the context element is. The result lists the
  matching elements in document order.
\<close>

fun has_numId :: "int \<Rightarrow> elem \<Rightarrow> bool" where
  "has_numId v (Elem (W_p d) ks) = (numId_val d = Some v)"
| "has_numId v e = False"

definition xpath_numId :: "ref \<Rightarrow> world \<Rightarrow> int \<Rightarrow> elem list" where
  "xpath_numId context_el w v = filter (has_numId v) (descendants (root w))"

text \<open>
  \<^verbatim>\<open>random.randint(a, b)\<close> returns some integer \<open>N\<close> with \<open>a \<le> N \<le> b\<close> and advances the
  generator. The generator is a sequence of raw draws and a position in it; the draw is
  reduced into the range, so every value of the range is the result for some generator.
\<close>

definition randint :: "int \<Rightarrow> int \<Rightarrow> world \<Rightarrow> int \<times> world" where
  "randint a b w =
     (a + int (rand_src w (rand_pos w) mod nat (b - a + 1)),
      w\<lparr>rand_pos := Suc (rand_pos w)\<rparr>)"

text \<open>
  Modelled from the spec: \<^verbatim>\<open>add_p\<close> and \<^verbatim>\<open>_insert_tbl\<close> of the container element
  (docx/oxml) are not under src/. The specification gives them as "primitives to
  construct an empty paragraph element and insert it as the last block-item child" and
  "to insert [a table element] as the last block-item child of a given parent node".
  Each returns the reference of the inserted element.
\<close>

definition empty_p :: CT_P where
  "empty_p = \<lparr>pStyle = None, r_lst = [], numId_val = None, ilvl_val = None\<rparr>"

definition add_p :: "ref \<Rightarrow> world \<Rightarrow> ref \<times> world" where
  "add_p el w =
     (el @ [length (kids_at (root w) el)],
      w\<lparr>root := upd_elem (append_child (Elem (W_p empty_p) [])) el (root w)\<rparr>)"

definition insert_tbl :: "ref \<Rightarrow> elem \<Rightarrow> world \<Rightarrow> ref \<times> world" where
  "insert_tbl el tbl w =
     (el @ [length (kids_at (root w) el)],
      w\<lparr>root := upd_elem (append_child tbl) el (root w)\<rparr>)"



text \<open>
  Modelled from the spec: the paragraph entity (docx/text) is not under src/. The
  specification gives it as "exposing: add-run-of-text, set-style,
  get/set-numbering-identifier, get-indentation-level".
\<close>

definition add_run :: "Paragraph \<Rightarrow> string \<Rightarrow> world \<Rightarrow> world" where
  "add_run paragraph text w =
     w\<lparr>root := upd_elem (map_p (\<lambda>d. d\<lparr>r_lst := r_lst d @ [text]\<rparr>)) (para_p paragraph) (root w)\<rparr>"

definition set_style :: "Paragraph \<Rightarrow> string \<Rightarrow> world \<Rightarrow> world" where
  "set_style paragraph style w =
     w\<lparr>root := upd_elem (map_p (\<lambda>d. d\<lparr>pStyle := Some style\<rparr>)) (para_p paragraph) (root w)\<rparr>"

definition set_numId :: "Paragraph \<Rightarrow> int \<Rightarrow> world \<Rightarrow> world" where
  "set_numId paragraph v w =
     w\<lparr>root := upd_elem (map_p (\<lambda>d. d\<lparr>numId_val := Some v\<rparr>)) (para_p paragraph) (root w)\<rparr>"


definition payload :: "Paragraph \<Rightarrow> world \<Rightarrow> CT_P option" where
  "payload paragraph w =
     (case get_elem (root w) (para_p paragraph) of
        Some (Elem (W_p d) ks) \<Rightarrow> Some d
      | _ \<Rightarrow> None)"


text \<open>
  Modelled from the spec: \<^verbatim>\<open>CT_Tbl.new_tbl\<close> (docx/oxml/table.py) is not under src/. The
  specification: "creates a new table element with rows rows and cols columns, with
  width divided into cols equal column widths (integer-division remainder policy: the
  implementer must choose and document a deterministic remainder distribution, e.g. all
  remainder absorbed by the last column)"; with no row or no column it is "a degenerate
  empty-dimension table". The rule taken here is the one the specification names: every
  column gets \<open>width div cols\<close> and the last one the remainder as well.
\<close>

definition col_widths :: "nat \<Rightarrow> int \<Rightarrow> int list" where
  "col_widths cols width =
     (if cols = 0 then []
      else replicate (cols - 1) (width div int cols)
             @ [width div int cols + width mod int cols])"

definition new_tbl :: "nat \<Rightarrow> nat \<Rightarrow> int \<Rightarrow> elem" where
  "new_tbl rows cols width =
     Elem (W_tbl (col_widths cols width))
       (replicate rows (Elem W_tr (replicate cols (Elem W_tc []))))"

section \<open>BlockItemContainer\<close>

text \<open>
  \<^verbatim>\<open>generate_numId\<close>: the loop \<^verbatim>\<open>while True\<close> draws a candidate and returns it when the
  query finds no element. Nothing bounds the number of rounds, so the function is
  partial: \<open>None\<close> is the call that never returns.
\<close>

partial_function (option) generate_numId :: "BlockItemContainer \<Rightarrow> world \<Rightarrow> (int \<times> world) option" where
  "generate_numId self w =
     (case randint 0 999999 w of
        (numId, w') \<Rightarrow>
          if length (xpath_numId (element self) w' numId) = 0 then Some (numId, w')
          else generate_numId self w')"

definition priv_add_paragraph :: "BlockItemContainer \<Rightarrow> world \<Rightarrow> Paragraph \<times> world" where
  "priv_add_paragraph self w =
     (case add_p (element self) w of
        (r, w') \<Rightarrow> (\<lparr>para_p = r, para_parent = self\<rparr>, w'))"

definition add_paragraph :: "BlockItemContainer \<Rightarrow> string \<Rightarrow> string option \<Rightarrow> world \<Rightarrow> Paragraph \<times> world" where
  "add_paragraph self text style w =
     (case priv_add_paragraph self w of
        (paragraph, w1) \<Rightarrow>
          let w2 = (if text \<noteq> [] then add_run paragraph text w1 else w1);
              w3 = (case style of None \<Rightarrow> w2 | Some s \<Rightarrow> set_style paragraph s w2)
          in (paragraph, w3))"

definition add_table :: "BlockItemContainer \<Rightarrow> nat \<Rightarrow> nat \<Rightarrow> int \<Rightarrow> world \<Rightarrow> Table \<times> world" where
  "add_table self rows cols width w =
     (let tbl = new_tbl rows cols width in
      case insert_tbl (element self) tbl w of
        (r, w') \<Rightarrow> (\<lparr>tbl_ref = r, tbl_parent = self\<rparr>, w'))"










section \<open>Notions the properties are stated with\<close>

text \<open>The numbering identifiers carried by the paragraphs of a whole tree, in document order.\<close>

fun elem_numId :: "elem \<Rightarrow> int list" where
  "elem_numId (Elem (W_p d) ks) = (case numId_val d of None \<Rightarrow> [] | Some v \<Rightarrow> [v])"
| "elem_numId e = []"

definition numIds_in :: "elem \<Rightarrow> int list" where
  "numIds_in r = concat (map elem_numId (descendants r))"

text \<open>A container is attached when its element reference resolves in the tree.\<close>

definition attached :: "BlockItemContainer \<Rightarrow> world \<Rightarrow> bool" where
  "attached self w = (get_elem (root w) (element self) \<noteq> None)"

text \<open>The block items of a container: its paragraph and table children, in document order.\<close>

definition block_items :: "BlockItemContainer \<Rightarrow> world \<Rightarrow> elem list" where
  "block_items self w = [e \<leftarrow> kids_at (root w) (element self). is_p e \<or> is_tbl e]"

text \<open>
  The scenario of the numbering uniqueness property: one call of \<^verbatim>\<open>generate_numId\<close> per
  container of the list, each followed, before the next call, by a new paragraph of that
  container to which the returned identifier is attached. The result is the list of the
  identifiers returned, or \<open>None\<close> when a call does not return.
\<close>

fun alloc_attach :: "BlockItemContainer list \<Rightarrow> world \<Rightarrow> (int list \<times> world) option" where
  "alloc_attach [] w = Some ([], w)"
| "alloc_attach (c # cs) w =
     (case generate_numId c w of
        None \<Rightarrow> None
      | Some (numId, w1) \<Rightarrow>
          (case add_paragraph c [] None w1 of
             (paragraph, w2) \<Rightarrow>
               (case alloc_attach cs (set_numId paragraph numId w2) of
                  None \<Rightarrow> None
                | Some (ids, w3) \<Rightarrow> Some (numId # ids, w3))))"

section \<open>Example documents\<close>

definition para :: "int option \<Rightarrow> elem" where
  "para v = Elem (W_p (empty_p\<lparr>numId_val := v\<rparr>)) []"

text \<open>
  A body with five paragraphs carrying the identifiers 1, none, 2, 1, none, and between
  the second and the third a table with one cell that holds a paragraph of list 7.
\<close>

definition example_root :: elem where
  "example_root =
     Elem W_body
       [para (Some 1), para None,
        Elem (W_tbl [10]) [Elem W_tr [Elem W_tc [para (Some 7)]]],
        para (Some 2), para (Some 1), para None]"

definition example_world :: world where
  "example_world =
     \<lparr>root = example_root, rand_src = (\<lambda>i. if i = 0 then 7 else i), rand_pos = 0\<rparr>"

definition body :: BlockItemContainer where
  "body = \<lparr>element = []\<rparr>"

definition cell :: BlockItemContainer where
  "cell = \<lparr>element = [2, 0, 0]\<rparr>"

text \<open>A body in which every identifier below \<open>n\<close> is taken.\<close>

definition full_root :: "nat \<Rightarrow> elem" where
  "full_root n = Elem W_body (map (\<lambda>i. para (Some (int i))) [0..<n])"

section \<open>Properties of the tree operations\<close>

lemma has_numId_iff: "has_numId v e = (v \<in> set (elem_numId e))"
  by (cases "(v, e)" rule: has_numId.cases) (auto split: option.splits)

lemma xpath_empty_iff: "(xpath_numId c w v = []) = (v \<notin> set (numIds_in (root w)))"
  by (auto simp: xpath_numId_def numIds_in_def filter_empty_conv has_numId_iff)

lemma numIds_in_Elem:
  "numIds_in (Elem t ks) = elem_numId (Elem t ks) @ concat (map numIds_in ks)"
  by (induction ks) (auto simp: numIds_in_def)

lemma upd_elem_invalid: "get_elem r el = None \<Longrightarrow> upd_elem f el r = r"
proof (induction el arbitrary: r)
  case Nil then show ?case by simp
next
  case (Cons i "is")
  obtain t ks where r: "r = Elem t ks" by (cases r)
  show ?case using Cons r by (auto simp: list_update_same_conv)
qed

lemma get_upd_ext:
  "get_elem r el = Some e \<Longrightarrow> get_elem (upd_elem f el r) (el @ q) = get_elem (f e) q"
proof (induction el arbitrary: r)
  case Nil then show ?case by simp
next
  case (Cons i "is")
  obtain t ks where r: "r = Elem t ks" by (cases r)
  show ?case using Cons r by (auto split: if_splits)
qed

lemma get_upd_self:
  "get_elem r el = Some e \<Longrightarrow> get_elem (upd_elem f el r) el = Some (f e)"
  using get_upd_ext[of r el e f "[]"] by simp

lemma get_upd_off:
  "\<not> prefix q el \<Longrightarrow> \<not> prefix el q \<Longrightarrow> get_elem (upd_elem f el r) q = get_elem r q"
proof (induction el arbitrary: r q)
  case Nil then show ?case by simp
next
  case (Cons i "is")
  obtain t ks where r: "r = Elem t ks" by (cases r)
  from Cons.prems obtain j js where q: "q = j # js" by (cases q) auto
  show ?case
  proof (cases "i = j")
    case True
    with Cons.prems q have "\<not> prefix js is" "\<not> prefix is js" by auto
    then show ?thesis using Cons.IH r q True by auto
  next
    case False
    then show ?thesis using r q by auto
  qed
qed

lemma get_upd_anc:
  assumes "\<And>x. tag_of (f x) = tag_of x"
  shows "prefix q el \<Longrightarrow> get_elem r q = Some e \<Longrightarrow>
           \<exists>e'. get_elem (upd_elem f el r) q = Some e' \<and> tag_of e' = tag_of e"
proof (induction el arbitrary: r q)
  case Nil then show ?case using assms by simp
next
  case (Cons i "is")
  obtain t ks where r: "r = Elem t ks" by (cases r)
  show ?case
  proof (cases q)
    case Nil
    then show ?thesis using Cons.prems r by auto
  next
    case (Cons j js)
    with Cons.prems have ij: "j = i" "prefix js is" by auto
    then show ?thesis using Cons.IH[of js "ks ! i" ] Cons.prems r Cons by (auto split: if_splits)
  qed
qed

lemma upd_elem_cong:
  "get_elem r el = Some e \<Longrightarrow> f e = g e \<Longrightarrow> upd_elem f el r = upd_elem g el r"
proof (induction el arbitrary: r)
  case Nil then show ?case by simp
next
  case (Cons i "is")
  obtain t ks where r: "r = Elem t ks" by (cases r)
  show ?case using Cons r by (auto split: if_splits)
qed

lemma upd_elem_comp:
  "get_elem r el = Some e \<Longrightarrow>
     upd_elem g (el @ q) (upd_elem f el r) = upd_elem (\<lambda>x. upd_elem g q (f x)) el r"
proof (induction el arbitrary: r)
  case Nil then show ?case by simp
next
  case (Cons i "is")
  obtain t ks where r: "r = Elem t ks" by (cases r)
  show ?case using Cons r by (auto split: if_splits)
qed

lemma upd_new_child:
  "upd_elem g [length (children e)] (append_child c e) = append_child (g c) e"
  by (cases e) simp

lemma upd_append_new:
  assumes "get_elem r el = Some e"
  shows "upd_elem g (el @ [length (children e)]) (upd_elem (append_child c) el r)
           = upd_elem (append_child (g c)) el r"
proof -
  have "upd_elem g (el @ [length (children e)]) (upd_elem (append_child c) el r)
          = upd_elem (\<lambda>x. upd_elem g [length (children e)] (append_child c x)) el r"
    using assms by (rule upd_elem_comp)
  also have "\<dots> = upd_elem (append_child (g c)) el r"
    using assms by (rule upd_elem_cong) (rule upd_new_child)
  finally show ?thesis .
qed

lemma elem_numId_tag: "elem_numId (Elem t ks) = elem_numId (Elem t ks')"
  by (cases t) simp_all

lemma numIds_append:
  "get_elem r el = Some e \<Longrightarrow>
     set (numIds_in (upd_elem (append_child c) el r)) = set (numIds_in r) \<union> set (numIds_in c)"
proof (induction el arbitrary: r)
  case Nil
  obtain t ks where r: "r = Elem t ks" by (cases r)
  show ?case using r elem_numId_tag[of t "ks @ [c]" ks] by (simp add: numIds_in_Elem Un_assoc)
next
  case (Cons i "is")
  obtain t ks where r: "r = Elem t ks" by (cases r)
  from Cons.prems r have i: "i < length ks" and g: "get_elem (ks ! i) is = Some e"
    by (auto split: if_splits)
  let ?x = "upd_elem (append_child c) is (ks ! i)"
  have IH: "set (numIds_in ?x) = set (numIds_in (ks ! i)) \<union> set (numIds_in c)"
    using g by (rule Cons.IH)
  have a: "ks[i := ?x] = take i ks @ ?x # drop (Suc i) ks" using i by (rule upd_conv_take_nth_drop)
  have b: "ks = take i ks @ ks ! i # drop (Suc i) ks" using i by (rule id_take_nth_drop)
  have "set (concat (map numIds_in (ks[i := ?x])))
          = set (concat (map numIds_in (take i ks))) \<union> set (numIds_in ?x)
              \<union> set (concat (map numIds_in (drop (Suc i) ks)))"
    by (subst a) (simp add: Un_assoc)
  moreover have "set (concat (map numIds_in ks))
          = set (concat (map numIds_in (take i ks))) \<union> set (numIds_in (ks ! i))
              \<union> set (concat (map numIds_in (drop (Suc i) ks)))"
    by (subst b) (simp add: Un_assoc)
  ultimately have "set (concat (map numIds_in (ks[i := ?x])))
                     = set (concat (map numIds_in ks)) \<union> set (numIds_in c)"
    using IH by auto
  then show ?case using r i elem_numId_tag[of t "ks[i := ?x]" ks]
    by (simp add: numIds_in_Elem Un_assoc)
qed

section \<open>The allocation loop\<close>

lemma randint_range:
  assumes "a \<le> b" "randint a b w = (n, w')"
  shows "a \<le> n \<and> n \<le> b"
proof -
  have pos: "0 < nat (b - a + 1)" using assms(1) by simp
  have "rand_src w (rand_pos w) mod nat (b - a + 1) < nat (b - a + 1)"
    using pos by (rule mod_less_divisor)
  then have "int (rand_src w (rand_pos w) mod nat (b - a + 1)) < b - a + 1"
    using assms(1) by linarith
  moreover have "n = a + int (rand_src w (rand_pos w) mod nat (b - a + 1))"
    using assms(2) by (simp add: randint_def)
  ultimately show ?thesis by simp
qed

lemma randint_world:
  "randint a b w = (n, w') \<Longrightarrow> w' = w\<lparr>rand_pos := Suc (rand_pos w)\<rparr>"
  by (auto simp: randint_def)

lemma gen_Some:
  assumes "generate_numId self w = Some y"
  shows "xpath_numId (element self) (snd y) (fst y) = [] \<and> root (snd y) = root w
       \<and> rand_src (snd y) = rand_src w
       \<and> rand_pos w < rand_pos (snd y) \<and> 0 \<le> fst y \<and> fst y \<le> 999999"
    (is "?P self w y")
proof (rule generate_numId.raw_induct[where P = ?P, OF _ assms])
  fix gen :: "BlockItemContainer \<Rightarrow> world \<Rightarrow> (int \<times> world) option"
  fix self w y
  assume IH: "\<And>s v z. gen s v = Some z \<Longrightarrow> ?P s v z"
  assume eq: "(case randint 0 999999 w of
                (numId, w') \<Rightarrow>
                  if length (xpath_numId (element self) w' numId) = 0 then Some (numId, w')
                  else gen self w') = Some y"
  obtain n w1 where r: "randint 0 999999 w = (n, w1)" by (cases "randint 0 999999 w")
  have rng: "0 \<le> n \<and> n \<le> 999999" using randint_range[OF _ r] by simp
  have w1: "w1 = w\<lparr>rand_pos := Suc (rand_pos w)\<rparr>" using r by (rule randint_world)
  show "?P self w y"
  proof (cases "length (xpath_numId (element self) w1 n) = 0")
    case True
    with eq r have "y = (n, w1)" by simp
    with True rng w1 show ?thesis by simp
  next
    case False
    with eq r have "gen self w1 = Some y" by simp
    then have "?P self w1 y" by (rule IH)
    then show ?thesis using w1 by simp
  qed
qed

lemma gen_progress:
  assumes "fst (randint 0 999999 (w\<lparr>rand_pos := rand_pos w + k\<rparr>)) \<notin> set (numIds_in (root w))"
  shows "\<exists>y. generate_numId self w = Some y"
  using assms
proof (induction k arbitrary: w)
  case 0
  obtain n w1 where r: "randint 0 999999 w = (n, w1)" by (cases "randint 0 999999 w")
  have w1: "w1 = w\<lparr>rand_pos := Suc (rand_pos w)\<rparr>" using r by (rule randint_world)
  from 0 r have "n \<notin> set (numIds_in (root w1))" using w1 by simp
  then have "xpath_numId (element self) w1 n = []" by (simp add: xpath_empty_iff)
  then show ?case using r by (subst generate_numId.simps) simp
next
  case (Suc k)
  obtain n w1 where r: "randint 0 999999 w = (n, w1)" by (cases "randint 0 999999 w")
  have w1: "w1 = w\<lparr>rand_pos := Suc (rand_pos w)\<rparr>" using r by (rule randint_world)
  have "fst (randint 0 999999 (w1\<lparr>rand_pos := rand_pos w1 + k\<rparr>)) \<notin> set (numIds_in (root w1))"
    using Suc.prems w1 by simp
  from Suc.IH[OF this] obtain y where y: "generate_numId self w1 = Some y" ..
  show ?case
  proof (cases "length (xpath_numId (element self) w1 n) = 0")
    case True
    then show ?thesis using r by (subst generate_numId.simps) simp
  next
    case False
    then show ?thesis using r y by (subst generate_numId.simps) simp
  qed
qed

lemma get_in_descendants: "get_elem r q = Some e \<Longrightarrow> e \<in> set (descendants r)"
proof (induction q arbitrary: r)
  case Nil then show ?case by (cases e) auto
next
  case (Cons i "is")
  obtain t ks where r: "r = Elem t ks" by (cases r)
  from Cons.prems r have i: "i < length ks" and g: "get_elem (ks ! i) is = Some e"
    by (auto split: if_splits)
  from Cons.IH[OF g] i show ?case unfolding r by auto
qed

lemma numIds_in_get:
  assumes "get_elem r q = Some (Elem (W_p d) ks)" "numId_val d = Some v"
  shows "v \<in> set (numIds_in r)"
proof -
  have "Elem (W_p d) ks \<in> set (descendants r)" using assms(1) by (rule get_in_descendants)
  moreover have "v \<in> set (elem_numId (Elem (W_p d) ks))" using assms(2) by simp
  ultimately show ?thesis unfolding numIds_in_def set_concat set_map by blast
qed

lemma gen_fresh:
  assumes "generate_numId self w = Some (n, w')"
  shows "n \<notin> set (numIds_in (root w))"
proof -
  from gen_Some[OF assms] have "xpath_numId (element self) w' n = []" "root w' = root w"
    by simp_all
  then show ?thesis by (simp add: xpath_empty_iff)
qed

lemma gen_indep_Some:
  assumes "generate_numId c1 w = Some y"
  shows "generate_numId c2 w = Some y"
proof (rule generate_numId.raw_induct[where P = "\<lambda>self w y. generate_numId c2 w = Some y", OF _ assms])
  fix gen :: "BlockItemContainer \<Rightarrow> world \<Rightarrow> (int \<times> world) option"
  fix self w y
  assume IH: "\<And>s v z. gen s v = Some z \<Longrightarrow> generate_numId c2 v = Some z"
  assume eq: "(case randint 0 999999 w of
                (numId, w') \<Rightarrow>
                  if length (xpath_numId (element self) w' numId) = 0 then Some (numId, w')
                  else gen self w') = Some y"
  obtain n w1 where r: "randint 0 999999 w = (n, w1)" by (cases "randint 0 999999 w")
  have x: "xpath_numId (element c2) w1 n = xpath_numId (element self) w1 n"
    by (simp add: xpath_numId_def)
  show "generate_numId c2 w = Some y"
  proof (cases "length (xpath_numId (element self) w1 n) = 0")
    case True
    with eq r have "y = (n, w1)" by simp
    with True r x show ?thesis by (subst generate_numId.simps) simp
  next
    case False
    with eq r have "gen self w1 = Some y" by simp
    then have "generate_numId c2 w1 = Some y" by (rule IH)
    with False r x show ?thesis by (subst generate_numId.simps) simp
  qed
qed

lemma gen_indep: "generate_numId c1 w = generate_numId c2 w"
proof (cases "generate_numId c1 w")
  case None
  show ?thesis
  proof (cases "generate_numId c2 w")
    case None
    with \<open>generate_numId c1 w = None\<close> show ?thesis by simp
  next
    case (Some y)
    then have "generate_numId c1 w = Some y" by (rule gen_indep_Some)
    with None show ?thesis by simp
  qed
next
  case (Some y)
  then have "generate_numId c2 w = Some y" by (rule gen_indep_Some)
  with Some show ?thesis by simp
qed

lemma numIds_example: "numIds_in example_root = [1, 7, 2, 1]"
  by (simp add: numIds_in_def example_root_def para_def empty_p_def)

lemma gen_example:
  "generate_numId c example_world = Some (3, example_world\<lparr>rand_pos := 4\<rparr>)"
  apply (subst generate_numId.simps)
  apply (simp add: randint_def xpath_empty_iff example_world_def numIds_example)
  apply (subst generate_numId.simps)
  apply (simp add: randint_def xpath_empty_iff numIds_example)
  apply (subst generate_numId.simps)
  apply (simp add: randint_def xpath_empty_iff numIds_example)
  apply (subst generate_numId.simps)
  apply (simp add: randint_def xpath_empty_iff numIds_example)
  done

lemma numIds_full_root: "numIds_in (full_root n) = map int [0..<n]"
proof -
  have "concat (map numIds_in (map (\<lambda>i. para (Some (int i))) xs)) = map int xs" for xs
    by (induction xs) (simp_all add: numIds_in_def para_def empty_p_def)
  then show ?thesis by (simp add: full_root_def numIds_in_Elem)
qed

lemma full_root_covers:
  assumes "0 \<le> v" "v < int n"
  shows "v \<in> set (numIds_in (full_root n))"
proof -
  have "nat v \<in> {0..<n}" using assms by auto
  then have "int (nat v) \<in> int ` {0..<n}" by (rule imageI)
  then show ?thesis using assms(1) by (simp add: numIds_full_root)
qed

lemma kids_at_Some: "get_elem r el = Some e \<Longrightarrow> kids_at r el = children e"
  by (simp add: kids_at_def)

lemma kids_at_append:
  "get_elem r el = Some e \<Longrightarrow> kids_at (upd_elem (append_child c) el r) el = children e @ [c]"
  by (cases e) (simp add: kids_at_def get_upd_self)

lemma get_new_child:
  "get_elem r el = Some e \<Longrightarrow>
     get_elem (upd_elem (append_child c) el r) (el @ [length (children e)]) = Some c"
  by (cases e) (simp add: get_upd_ext)

lemma add_paragraph_eq:
  assumes "get_elem (root w) (element self) = Some e"
  shows "add_paragraph self text style w =
           (\<lparr>para_p = element self @ [length (children e)], para_parent = self\<rparr>,
            w\<lparr>root := upd_elem
                 (append_child
                    (Elem (W_p \<lparr>pStyle = style, r_lst = (if text \<noteq> [] then [text] else []),
                                numId_val = None, ilvl_val = None\<rparr>) []))
                 (element self) (root w)\<rparr>)"
proof -
  let ?r = "element self @ [length (children e)]"
  let ?p = "\<lparr>para_p = ?r, para_parent = self\<rparr>"
  have 1: "priv_add_paragraph self w =
             (?p, w\<lparr>root := upd_elem (append_child (Elem (W_p empty_p) [])) (element self) (root w)\<rparr>)"
    using assms by (simp add: priv_add_paragraph_def add_p_def kids_at_Some)
  have u: "upd_elem g ?r (upd_elem (append_child c) (element self) (root w))
             = upd_elem (append_child (g c)) (element self) (root w)" for g c
    using assms by (rule upd_append_new)
  show ?thesis
    by (cases style)
       (simp_all add: add_paragraph_def 1 add_run_def set_style_def u empty_p_def Let_def)
qed

lemma add_table_eq:
  assumes "get_elem (root w) (element self) = Some e"
  shows "add_table self rows cols width w =
           (\<lparr>tbl_ref = element self @ [length (children e)], tbl_parent = self\<rparr>,
            w\<lparr>root := upd_elem (append_child (new_tbl rows cols width)) (element self) (root w)\<rparr>)"
  using assms by (simp add: add_table_def insert_tbl_def kids_at_Some)


lemma get_elem_append:
  "get_elem r (a @ b) = (case get_elem r a of None \<Rightarrow> None | Some e \<Rightarrow> get_elem e b)"
proof (induction a arbitrary: r)
  case Nil then show ?case by simp
next
  case (Cons i "is")
  obtain t ks where r: "r = Elem t ks" by (cases r)
  show ?case using Cons r by simp
qed

lemma tag_of_append_child: "tag_of (append_child c x) = tag_of x"
  by (cases x) simp

lemma append_frame_off:
  assumes el: "get_elem r el = Some e"
    and q: "get_elem r q = Some x" "\<not> prefix q el"
  shows "get_elem (upd_elem (append_child c) el r) q = Some x"
proof (cases "prefix el q")
  case False
  with q show ?thesis by (simp add: get_upd_off)
next
  case True
  then obtain q' where q': "q = el @ q'" by (auto simp: prefix_def)
  with q(2) obtain i rest where ir: "q' = i # rest" by (cases q') auto
  obtain t ks where e: "e = Elem t ks" by (cases e)
  from q(1) el have x: "get_elem (Elem t ks) (i # rest) = Some x"
    by (simp add: q' ir e get_elem_append)
  then have i: "i < length ks" by (simp split: if_splits)
  have "get_elem (upd_elem (append_child c) el r) q = get_elem (append_child c e) (i # rest)"
    unfolding q' ir using el by (rule get_upd_ext)
  also have "\<dots> = get_elem (Elem t ks) (i # rest)" using i by (simp add: e nth_append)
  finally show ?thesis using x by simp
qed

lemma append_frame_anc:
  assumes "get_elem r q = Some x" "prefix q el"
  shows "\<exists>x'. get_elem (upd_elem (append_child c) el r) q = Some x' \<and> tag_of x' = tag_of x"
  using tag_of_append_child assms(2,1) by (rule get_upd_anc)

lemma block_items_append:
  assumes "get_elem (root w) (element self) = Some e" "is_p c \<or> is_tbl c"
  shows "block_items self (w\<lparr>root := upd_elem (append_child c) (element self) (root w)\<rparr>)
           = block_items self w @ [c]"
  using assms by (simp add: block_items_def kids_at_append kids_at_Some)

lemma is_tbl_new_tbl: "is_tbl (new_tbl rows cols width)"
  by (simp add: new_tbl_def)

lemma cell_example:
  "get_elem (root example_world) (element cell) = Some (Elem W_tc [para (Some 7)])"
  by (simp add: example_world_def example_root_def cell_def)

lemma body_example:
  "get_elem (root example_world) (element body) = Some example_root"
  by (simp add: body_def example_world_def)

lemma add_paragraph_then_upd:
  assumes "get_elem (root w) (element self) = Some e"
    and "add_paragraph self text style w = (pg, w1)"
  shows "upd_elem g (para_p pg) (root w1) =
           upd_elem
             (append_child
                (g (Elem (W_p \<lparr>pStyle = style, r_lst = (if text \<noteq> [] then [text] else []),
                               numId_val = None, ilvl_val = None\<rparr>) [])))
             (element self) (root w)"
proof -
  from assms(2) have "para_p pg = element self @ [length (children e)]"
    and "root w1 = upd_elem (append_child
           (Elem (W_p \<lparr>pStyle = style, r_lst = (if text \<noteq> [] then [text] else []),
                               numId_val = None, ilvl_val = None\<rparr>) []))
           (element self) (root w)"
    unfolding add_paragraph_eq[OF assms(1)] by auto
  then show ?thesis using upd_append_new[OF assms(1)] by simp
qed

lemma attached_append:
  assumes "get_elem r el = Some e" "get_elem r q \<noteq> None"
  shows "get_elem (upd_elem (append_child c) el r) q \<noteq> None"
proof -
  from assms(2) obtain x where x: "get_elem r q = Some x" by auto
  show ?thesis
  proof (cases "prefix q el")
    case True
    with append_frame_anc[OF x True, of c] show ?thesis by auto
  next
    case False
    with append_frame_off[OF assms(1) x False, of c] show ?thesis by simp
  qed
qed

lemma attach_step:
  assumes el: "get_elem (root w) (element c) = Some e"
    and a: "add_paragraph c text style w = (pg, w2)"
  shows "set (numIds_in (root (set_numId pg n w2))) = insert n (set (numIds_in (root w)))"
    and "get_elem (root w) q \<noteq> None \<Longrightarrow> get_elem (root (set_numId pg n w2)) q \<noteq> None"
    and "rand_src (set_numId pg n w2) = rand_src w"
    and "rand_pos (set_numId pg n w2) = rand_pos w"
proof -
  let ?c = "Elem (W_p \<lparr>pStyle = style, r_lst = (if text \<noteq> [] then [text] else []),
                               numId_val = Some n, ilvl_val = None\<rparr>) []"
  have r: "root (set_numId pg n w2) = upd_elem (append_child ?c) (element c) (root w)"
    using add_paragraph_then_upd[OF el a, of "map_p (\<lambda>d. d\<lparr>numId_val := Some n\<rparr>)"]
    by (simp add: set_numId_def)
  have "numIds_in ?c = [n]" by (simp add: numIds_in_def)
  then show "set (numIds_in (root (set_numId pg n w2))) = insert n (set (numIds_in (root w)))"
    unfolding r using numIds_append[OF el, of ?c] by simp
  show "get_elem (root w) q \<noteq> None \<Longrightarrow> get_elem (root (set_numId pg n w2)) q \<noteq> None"
    unfolding r using el by (rule attached_append)
  from a show "rand_src (set_numId pg n w2) = rand_src w" "rand_pos (set_numId pg n w2) = rand_pos w"
    unfolding add_paragraph_eq[OF el] by (auto simp: set_numId_def)
qed

lemma alloc_attach_distinct:
  assumes "alloc_attach cs w = Some (ids, w')" "\<forall>c\<in>set cs. attached c w"
  shows "distinct ids \<and> set ids \<inter> set (numIds_in (root w)) = {} \<and> length ids = length cs
           \<and> set (numIds_in (root w')) = set (numIds_in (root w)) \<union> set ids"
  using assms
proof (induction cs arbitrary: w ids w')
  case Nil
  then show ?case by simp
next
  case (Cons c cs)
  from Cons.prems(1) obtain n w1 where g: "generate_numId c w = Some (n, w1)"
    by (auto split: option.splits)
  obtain pg w2 where a: "add_paragraph c [] None w1 = (pg, w2)"
    by (cases "add_paragraph c [] None w1")
  from Cons.prems(1) g a obtain ids' where
    rec: "alloc_attach cs (set_numId pg n w2) = Some (ids', w')" and ids: "ids = n # ids'"
    by (auto split: option.splits)
  from gen_Some[OF g] have rw: "root w1 = root w" by simp
  from g have fresh: "n \<notin> set (numIds_in (root w))" by (rule gen_fresh)
  from Cons.prems(2) rw obtain e where el: "get_elem (root w1) (element c) = Some e"
    by (auto simp: attached_def)
  note st = attach_step[OF el a]
  have att: "\<forall>c\<in>set cs. attached c (set_numId pg n w2)"
    using Cons.prems(2) st(2) rw by (auto simp: attached_def)
  from Cons.IH[OF rec att] st(1) rw
  have "distinct ids'" "set ids' \<inter> insert n (set (numIds_in (root w))) = {}"
    "length ids' = length cs"
    "set (numIds_in (root w')) = insert n (set (numIds_in (root w))) \<union> set ids'"
    by simp_all
  with fresh ids show ?case by auto
qed

lemma alloc_example:
  "\<exists>w''. alloc_attach [body, cell] example_world = Some ([3, 4], w'')"
proof -
  let ?w1 = "example_world\<lparr>rand_pos := 4\<rparr>"
  have g1: "generate_numId body example_world = Some (3, ?w1)" by (rule gen_example)
  obtain pg w2 where a1: "add_paragraph body [] None ?w1 = (pg, w2)"
    by (cases "add_paragraph body [] None ?w1")
  let ?w3 = "set_numId pg 3 w2"
  have el1: "get_elem (root ?w1) (element body) = Some example_root"
    by (simp add: body_def example_world_def)
  note st = attach_step[OF el1 a1, where n = 3]
  have ids3: "set (numIds_in (root ?w3)) = {1, 2, 3, 7}"
    using st(1) by (auto simp: example_world_def numIds_example)
  have src3: "rand_src ?w3 = (\<lambda>i. if i = 0 then 7 else i)" and pos3: "rand_pos ?w3 = 4"
    using st(3,4) by (simp_all add: example_world_def)
  have g2: "generate_numId cell ?w3 = Some (4, ?w3\<lparr>rand_pos := 5\<rparr>)"
    by (subst generate_numId.simps) (simp add: randint_def xpath_empty_iff ids3 src3 pos3)
  obtain pg' w4 where a2: "add_paragraph cell [] None (?w3\<lparr>rand_pos := 5\<rparr>) = (pg', w4)"
    by (cases "add_paragraph cell [] None (?w3\<lparr>rand_pos := 5\<rparr>)")
  have "alloc_attach [body, cell] example_world = Some ([3, 4], set_numId pg' 4 w4)"
    by (simp add: g1 a1 g2 a2)
  then show ?thesis ..
qed













lemma gen_repeat_example:
  "generate_numId c (example_world\<lparr>rand_src := \<lambda>i. 3, rand_pos := k\<rparr>)
     = Some (3, example_world\<lparr>rand_src := \<lambda>i. 3, rand_pos := Suc k\<rparr>)"
  by (subst generate_numId.simps)
     (simp add: randint_def xpath_empty_iff example_world_def numIds_example)

section \<open>The claims\<close>

text \<open>
  C1. \<^verbatim>\<open>generate_numId\<close> never returns an integer that, when it is allocated, is the
  numbering identifier of a paragraph anywhere in the document. Consequently, when each
  of \<open>N\<close> calls is followed, before the next one, by a new paragraph to which the returned
  identifier is attached, the \<open>N\<close> identifiers returned are pairwise distinct and distinct
  from every identifier the document held before. (A call returns as soon as a candidate
  is unused, lemma \<open>gen_progress\<close>; that it may never return is claim C7.)
\<close>

theorem generate_numId_returns_unused_ids:
  "(generate_numId self w = Some (numId, w') \<longrightarrow> numId \<notin> set (numIds_in (root w)))
   \<and> ((\<forall>c\<in>set cs. attached c w) \<and> alloc_attach cs w = Some (ids, w'') \<longrightarrow>
        length ids = length cs \<and> distinct ids \<and> set ids \<inter> set (numIds_in (root w)) = {})"
  using gen_fresh[of self w numId w'] alloc_attach_distinct[of cs w ids w''] by blast

theorem generate_numId_returns_unused_ids_witness:
  "generate_numId body example_world = Some (3, example_world\<lparr>rand_pos := 4\<rparr>)
   \<and> 3 \<notin> set (numIds_in (root example_world))
   \<and> (\<exists>w''. alloc_attach [body, cell] example_world = Some ([3, 4], w''))
   \<and> distinct [3, 4 :: int]
   \<and> set [3, 4] \<inter> set (numIds_in (root example_world)) = {}"
proof -
  have g: "generate_numId body example_world = Some (3, example_world\<lparr>rand_pos := 4\<rparr>)"
    by (rule gen_example)
  obtain w'' where al: "alloc_attach [body, cell] example_world = Some ([3, 4], w'')"
    using alloc_example ..
  have att: "\<forall>c\<in>set [body, cell]. attached c example_world"
    by (simp add: attached_def body_example cell_example)
  from generate_numId_returns_unused_ids[of body example_world 3 "example_world\<lparr>rand_pos := 4\<rparr>"
      "[body, cell]" "[3, 4]" w''] g al att
  have "3 \<notin> set (numIds_in (root example_world))"
    and "distinct [3, 4 :: int]"
    and "set [3, 4] \<inter> set (numIds_in (root example_world)) = {}"
    by blast+
  with g al show ?thesis by blast
qed



text \<open>
  C3. In a container whose element has the children \<open>ks\<close>, \<^verbatim>\<open>add_paragraph\<close> makes the
  children \<open>ks @ [p]\<close>, where \<open>p\<close> is the paragraph the returned proxy refers to, and
  \<^verbatim>\<open>add_table\<close> makes them \<open>ks @ [tb]\<close> for its new table; the block items of the
  container gain that one element at the tail. No existing element is reordered or
  mutated: every element of the document that is not on the path from the root to the
  container is found unchanged under the reference it had, and the elements on that path
  keep their tag and payload.
\<close>

theorem appenders_add_at_the_tail:
  assumes "get_elem (root w) (element self) = Some (Elem t ks)"
  shows "(add_paragraph self text style w = (paragraph, w1) \<longrightarrow>
            (\<exists>p. is_p p \<and> get_elem (root w1) (para_p paragraph) = Some p
                  \<and> kids_at (root w1) (element self) = ks @ [p]
                  \<and> block_items self w1 = block_items self w @ [p])
            \<and> (\<forall>q x. get_elem (root w) q = Some x \<longrightarrow>
                  (if prefix q (element self)
                   then \<exists>x'. get_elem (root w1) q = Some x' \<and> tag_of x' = tag_of x
                   else get_elem (root w1) q = Some x)))
       \<and> (add_table self rows cols width w = (table, w2) \<longrightarrow>
            (\<exists>tb. is_tbl tb \<and> get_elem (root w2) (tbl_ref table) = Some tb
                  \<and> kids_at (root w2) (element self) = ks @ [tb]
                  \<and> block_items self w2 = block_items self w @ [tb])
            \<and> (\<forall>q x. get_elem (root w) q = Some x \<longrightarrow>
                  (if prefix q (element self)
                   then \<exists>x'. get_elem (root w2) q = Some x' \<and> tag_of x' = tag_of x
                   else get_elem (root w2) q = Some x)))"
proof (intro conjI impI)
  let ?el = "element self"
  let ?c = "Elem (W_p \<lparr>pStyle = style, r_lst = (if text \<noteq> [] then [text] else []),
                        numId_val = None, ilvl_val = None\<rparr>) []"
  assume a: "add_paragraph self text style w = (paragraph, w1)"
  from a have p: "para_p paragraph = ?el @ [length ks]"
    and w1: "root w1 = upd_elem (append_child ?c) ?el (root w)"
    and w1': "w1 = w\<lparr>root := upd_elem (append_child ?c) ?el (root w)\<rparr>"
    unfolding add_paragraph_eq[OF assms] by auto
  have "is_p ?c" by simp
  moreover have "get_elem (root w1) (para_p paragraph) = Some ?c"
    unfolding p w1 using get_new_child[OF assms] by simp
  moreover have "kids_at (root w1) ?el = ks @ [?c]"
    unfolding w1 using kids_at_append[OF assms] by simp
  moreover have "block_items self w1 = block_items self w @ [?c]"
    unfolding w1' using assms by (intro block_items_append) simp_all
  ultimately show "\<exists>p. is_p p \<and> get_elem (root w1) (para_p paragraph) = Some p
                  \<and> kids_at (root w1) (element self) = ks @ [p]
                  \<and> block_items self w1 = block_items self w @ [p]"
    by blast
  show "\<forall>q x. get_elem (root w) q = Some x \<longrightarrow>
                  (if prefix q (element self)
                   then \<exists>x'. get_elem (root w1) q = Some x' \<and> tag_of x' = tag_of x
                   else get_elem (root w1) q = Some x)"
    unfolding w1 using append_frame_off[OF assms] append_frame_anc by auto
next
  let ?el = "element self"
  let ?c = "new_tbl rows cols width"
  assume a: "add_table self rows cols width w = (table, w2)"
  from a have p: "tbl_ref table = ?el @ [length ks]"
    and w2: "root w2 = upd_elem (append_child ?c) ?el (root w)"
    and w2': "w2 = w\<lparr>root := upd_elem (append_child ?c) ?el (root w)\<rparr>"
    unfolding add_table_eq[OF assms] by auto
  have "is_tbl ?c" by (rule is_tbl_new_tbl)
  moreover have "get_elem (root w2) (tbl_ref table) = Some ?c"
    unfolding p w2 using get_new_child[OF assms] by simp
  moreover have "kids_at (root w2) ?el = ks @ [?c]"
    unfolding w2 using kids_at_append[OF assms] by simp
  moreover have "block_items self w2 = block_items self w @ [?c]"
    unfolding w2' using assms is_tbl_new_tbl by (intro block_items_append) simp_all
  ultimately show "\<exists>tb. is_tbl tb \<and> get_elem (root w2) (tbl_ref table) = Some tb
                  \<and> kids_at (root w2) (element self) = ks @ [tb]
                  \<and> block_items self w2 = block_items self w @ [tb]"
    by blast
  show "\<forall>q x. get_elem (root w) q = Some x \<longrightarrow>
                  (if prefix q (element self)
                   then \<exists>x'. get_elem (root w2) q = Some x' \<and> tag_of x' = tag_of x
                   else get_elem (root w2) q = Some x)"
    unfolding w2 using append_frame_off[OF assms] append_frame_anc by auto
qed

theorem appenders_add_at_the_tail_witness:
  "kids_at (root (snd (add_paragraph cell ''hello'' None example_world))) (element cell)
     = [para (Some 7),
        Elem (W_p \<lparr>pStyle = None, r_lst = [''hello''], numId_val = None, ilvl_val = None\<rparr>) []]
   \<and> get_elem (root (snd (add_paragraph cell ''hello'' None example_world))) [4] = Some (para (Some 1))
   \<and> block_items cell (snd (add_table cell 1 2 7 example_world))
     = [para (Some 7), Elem (W_tbl [3, 4]) [Elem W_tr [Elem W_tc [], Elem W_tc []]]]"
proof -
  obtain pg w1 where a: "add_paragraph cell ''hello'' None example_world = (pg, w1)"
    by (cases "add_paragraph cell ''hello'' None example_world")
  obtain tbl0 w2 where b: "add_table cell 1 2 7 example_world = (tbl0, w2)"
    by (cases "add_table cell 1 2 7 example_world")
  note inst = appenders_add_at_the_tail[OF cell_example,
      of "''hello''" None pg w1 1 2 7 tbl0 w2]
  from inst a obtain p where p: "get_elem (root w1) (para_p pg) = Some p"
      "kids_at (root w1) (element cell) = [para (Some 7)] @ [p]"
    by blast
  from inst a have fr: "\<forall>q x. get_elem (root example_world) q = Some x \<longrightarrow>
                  (if prefix q (element cell)
                   then \<exists>x'. get_elem (root w1) q = Some x' \<and> tag_of x' = tag_of x
                   else get_elem (root w1) q = Some x)"
    by blast
  from inst b obtain tb where tb: "get_elem (root w2) (tbl_ref tbl0) = Some tb"
      "block_items cell w2 = block_items cell example_world @ [tb]"
    by blast
  have a': "pg = \<lparr>para_p = [2, 0, 0, 1], para_parent = cell\<rparr>"
       "root w1 = upd_elem (append_child
           (Elem (W_p \<lparr>pStyle = None, r_lst = [''hello''], numId_val = None, ilvl_val = None\<rparr>) []))
           (element cell) (root example_world)"
    using a unfolding add_paragraph_eq[OF cell_example] by (auto simp: cell_def)
  have b': "tbl0 = \<lparr>tbl_ref = [2, 0, 0, 1], tbl_parent = cell\<rparr>"
       "root w2 = upd_elem (append_child (new_tbl 1 2 7)) (element cell) (root example_world)"
    using b unfolding add_table_eq[OF cell_example] by (auto simp: cell_def)
  have p': "p = Elem (W_p \<lparr>pStyle = None, r_lst = [''hello''], numId_val = None, ilvl_val = None\<rparr>) []"
    using p(1) unfolding a' by (simp add: example_world_def example_root_def cell_def)
  have tb': "tb = Elem (W_tbl [3, 4]) [Elem W_tr [Elem W_tc [], Elem W_tc []]]"
    using tb(1) unfolding b'
    by (simp add: example_world_def example_root_def cell_def new_tbl_def col_widths_def
        numeral_2_eq_2)
  have old: "block_items cell example_world = [para (Some 7)]"
    by (simp add: block_items_def kids_at_def cell_example para_def)
  have four: "get_elem (root example_world) [4] = Some (para (Some 1))"
    by (simp add: example_world_def example_root_def)
  have "\<not> prefix [4] (element cell)" by (simp add: cell_def)
  with fr four have "get_elem (root w1) [4] = Some (para (Some 1))" by metis
  then show ?thesis using p(2) p' tb(2) tb' old a b by simp
qed

text \<open>
  C4. The paragraph \<^verbatim>\<open>add_paragraph(text, style)\<close> returns, read in the document the call
  leaves, carries exactly one run holding \<open>text\<close> when \<open>text\<close> is not empty and no run
  when it is empty; its style is the \<open>style\<close> passed, so a style that is provided is
  attached and a call without arguments gives a paragraph with no run and no explicit
  style. The run and the style are in place when the call returns.
\<close>

theorem add_paragraph_text_and_style:
  assumes "attached self w" and "add_paragraph self text style w = (paragraph, w')"
  shows "\<exists>d. payload paragraph w' = Some d \<and> pStyle d = style
           \<and> r_lst d = (if text \<noteq> [] then [text] else []) \<and> numId_val d = None"
proof -
  from assms(1) obtain e where e: "get_elem (root w) (element self) = Some e"
    by (auto simp: attached_def)
  let ?c = "Elem (W_p \<lparr>pStyle = style, r_lst = (if text \<noteq> [] then [text] else []),
                        numId_val = None, ilvl_val = None\<rparr>) []"
  from assms(2) have p: "para_p paragraph = element self @ [length (children e)]"
    and w': "root w' = upd_elem (append_child ?c) (element self) (root w)"
    unfolding add_paragraph_eq[OF e] by auto
  have "get_elem (root w') (para_p paragraph) = Some ?c"
    unfolding p w' using e by (rule get_new_child)
  then show ?thesis by (simp add: payload_def)
qed

theorem add_paragraph_text_and_style_witness:
  "payload (fst (add_paragraph body ''hello'' (Some ''styleX'') example_world))
           (snd (add_paragraph body ''hello'' (Some ''styleX'') example_world))
     = Some \<lparr>pStyle = Some ''styleX'', r_lst = [''hello''], numId_val = None, ilvl_val = None\<rparr>
   \<and> payload (fst (add_paragraph cell [] None example_world))
             (snd (add_paragraph cell [] None example_world))
     = Some \<lparr>pStyle = None, r_lst = [], numId_val = None, ilvl_val = None\<rparr>"
proof -
  have ab: "attached body example_world" by (simp add: attached_def body_example)
  have ac: "attached cell example_world" by (simp add: attached_def cell_example)
  from add_paragraph_text_and_style[OF ab, of "''hello''" "Some ''styleX''"
      "fst (add_paragraph body ''hello'' (Some ''styleX'') example_world)"
      "snd (add_paragraph body ''hello'' (Some ''styleX'') example_world)"]
  obtain d where d: "payload (fst (add_paragraph body ''hello'' (Some ''styleX'') example_world))
           (snd (add_paragraph body ''hello'' (Some ''styleX'') example_world)) = Some d"
     "pStyle d = Some ''styleX''" "r_lst d = [''hello'']" "numId_val d = None"
    by auto
  from add_paragraph_text_and_style[OF ac, of "[]" None
      "fst (add_paragraph cell [] None example_world)"
      "snd (add_paragraph cell [] None example_world)"]
  obtain d' where d': "payload (fst (add_paragraph cell [] None example_world))
             (snd (add_paragraph cell [] None example_world)) = Some d'"
     "pStyle d' = None" "r_lst d' = []" "numId_val d' = None"
    by auto
  have "ilvl_val d = None"
    using d(1) unfolding add_paragraph_eq[OF body_example]
    by (auto simp: payload_def body_def example_world_def example_root_def)
  moreover have "ilvl_val d' = None"
    using d'(1) unfolding add_paragraph_eq[OF cell_example]
    by (auto simp: payload_def cell_def example_world_def example_root_def)
  ultimately show ?thesis using d d' by (cases d, cases d') simp
qed







text \<open>
  C7. \<^verbatim>\<open>generate_numId\<close> is not guaranteed to terminate: in a document in which every
  integer of the sampling range 0 to 999999 is the numbering identifier of some
  paragraph, every candidate is rejected, so the call retries forever and never returns,
  whatever the random generator draws and whatever the container is. No error is raised
  in its place: the result \<open>None\<close> of the model stands for the call that does not return.
\<close>

theorem generate_numId_loops_when_range_full:
  assumes "\<forall>v. 0 \<le> v \<and> v \<le> 999999 \<longrightarrow> v \<in> set (numIds_in (root w))"
  shows "generate_numId self w = None"
proof (cases "generate_numId self w")
  case None then show ?thesis .
next
  case (Some y)
  from gen_Some[OF Some] have "0 \<le> fst y \<and> fst y \<le> 999999" by simp
  with assms have "fst y \<in> set (numIds_in (root w))" by blast
  moreover have "fst y \<notin> set (numIds_in (root w))"
    using Some by (intro gen_fresh[of self w "fst y" "snd y"]) simp
  ultimately show ?thesis by simp
qed

theorem generate_numId_loops_when_range_full_witness:
  "generate_numId body \<lparr>root = full_root 1000000, rand_src = (\<lambda>i. i), rand_pos = 0\<rparr> = None"
proof -
  have "\<forall>v. 0 \<le> v \<and> v \<le> 999999 \<longrightarrow>
          v \<in> set (numIds_in (root \<lparr>root = full_root 1000000, rand_src = (\<lambda>i. i), rand_pos = 0\<rparr>))"
  proof (intro allI impI)
    fix v :: int
    assume v: "0 \<le> v \<and> v \<le> 999999"
    then have "v < int 1000000" by simp
    with v have "v \<in> set (numIds_in (full_root 1000000))" by (intro full_root_covers) simp_all
    then show "v \<in> set (numIds_in (root \<lparr>root = full_root 1000000, rand_src = (\<lambda>i. i), rand_pos = 0\<rparr>))"
      by simp
  qed
  then show ?thesis by (rule generate_numId_loops_when_range_full)
qed

text \<open>
  C8. \<^verbatim>\<open>generate_numId\<close> has no side effect on the document: a call that returns leaves
  the tree as it was (only the random generator has advanced), so the returned
  identifier is neither reserved nor marked. Consequently there are a document and a
  generator for which two calls in sequence, with no paragraph attached in between,
  return the same identifier.
\<close>

theorem generate_numId_reserves_nothing:
  "(generate_numId self w = Some (numId, w') \<longrightarrow>
      root w' = root w \<and> w' = w\<lparr>rand_pos := rand_pos w'\<rparr>)
   \<and> (\<exists>c w0 n w1 w2. generate_numId c w0 = Some (n, w1) \<and> generate_numId c w1 = Some (n, w2))"
proof
  show "generate_numId self w = Some (numId, w') \<longrightarrow>
          root w' = root w \<and> w' = w\<lparr>rand_pos := rand_pos w'\<rparr>"
  proof
    assume "generate_numId self w = Some (numId, w')"
    from gen_Some[OF this] have "root w' = root w" "rand_src w' = rand_src w" by simp_all
    then show "root w' = root w \<and> w' = w\<lparr>rand_pos := rand_pos w'\<rparr>"
      by (cases w, cases w') simp
  qed
next
  have "generate_numId body (example_world\<lparr>rand_src := \<lambda>i. 3, rand_pos := 0\<rparr>)
          = Some (3, example_world\<lparr>rand_src := \<lambda>i. 3, rand_pos := Suc 0\<rparr>)"
    by (rule gen_repeat_example)
  moreover have "generate_numId body (example_world\<lparr>rand_src := \<lambda>i. 3, rand_pos := Suc 0\<rparr>)
          = Some (3, example_world\<lparr>rand_src := \<lambda>i. 3, rand_pos := Suc (Suc 0)\<rparr>)"
    by (rule gen_repeat_example)
  ultimately show "\<exists>c w0 n w1 w2. generate_numId c w0 = Some (n, w1) \<and> generate_numId c w1 = Some (n, w2)"
    by blast
qed

theorem generate_numId_reserves_nothing_witness:
  "generate_numId body example_world = Some (3, example_world\<lparr>rand_pos := 4\<rparr>)
   \<and> root (example_world\<lparr>rand_pos := 4\<rparr>) = example_root"
proof -
  have g: "generate_numId body example_world = Some (3, example_world\<lparr>rand_pos := 4\<rparr>)"
    by (rule gen_example)
  have "root (example_world\<lparr>rand_pos := 4\<rparr>) = root example_world"
    using generate_numId_reserves_nothing[of body example_world 3 "example_world\<lparr>rand_pos := 4\<rparr>"] g
    by blast
  then show ?thesis using g by (simp add: example_world_def)
qed



text \<open>
  C10. The existence check of \<^verbatim>\<open>generate_numId\<close> is global to the document and not
  scoped to the container: two containers over different subtrees of the same document
  run the same query and get the same result from the call, and an identifier the call
  returns is carried by no paragraph anywhere in the document, inside or outside the
  subtree of the container.
\<close>

theorem generate_numId_check_is_document_global:
  "generate_numId c1 w = generate_numId c2 w
   \<and> xpath_numId (element c1) w v = xpath_numId (element c2) w v
   \<and> (generate_numId c1 w = Some (numId, w') \<longrightarrow>
        (\<forall>q d ks. get_elem (root w) q = Some (Elem (W_p d) ks) \<longrightarrow> numId_val d \<noteq> Some numId))"
proof (intro conjI impI allI)
  show "generate_numId c1 w = generate_numId c2 w" by (rule gen_indep)
  show "xpath_numId (element c1) w v = xpath_numId (element c2) w v"
    by (simp add: xpath_numId_def)
next
  fix q d ks
  assume g: "generate_numId c1 w = Some (numId, w')"
    and q: "get_elem (root w) q = Some (Elem (W_p d) ks)"
  from g have "numId \<notin> set (numIds_in (root w))" by (rule gen_fresh)
  with numIds_in_get[OF q] show "numId_val d \<noteq> Some numId" by blast
qed

theorem generate_numId_check_is_document_global_witness:
  "generate_numId cell example_world = generate_numId body example_world
   \<and> generate_numId cell example_world = Some (3, example_world\<lparr>rand_pos := 4\<rparr>)
   \<and> get_elem (root example_world) (element cell) = Some (Elem W_tc [para (Some 7)])
   \<and> get_elem (root example_world) [0] = Some (para (Some 1))
   \<and> numId_val (empty_p\<lparr>numId_val := Some 1\<rparr>) \<noteq> Some 3"
proof -
  have g: "generate_numId cell example_world = Some (3, example_world\<lparr>rand_pos := 4\<rparr>)"
    by (rule gen_example)
  have q: "get_elem (root example_world) [0] = Some (Elem (W_p (empty_p\<lparr>numId_val := Some 1\<rparr>)) [])"
    by (simp add: example_world_def example_root_def para_def)
  have c: "get_elem (root example_world) (element cell) = Some (Elem W_tc [para (Some 7)])"
    by (simp add: example_world_def example_root_def cell_def)
  from generate_numId_check_is_document_global[of cell example_world body 3 3 "example_world\<lparr>rand_pos := 4\<rparr>"]
  have "generate_numId cell example_world = generate_numId body example_world"
    and "\<forall>q d ks. get_elem (root example_world) q = Some (Elem (W_p d) ks) \<longrightarrow> numId_val d \<noteq> Some 3"
    using g by blast+
  then show ?thesis using g q c by (auto simp: para_def)
qed

end
